theory Spec2Isabelle
  imports Main
begin

section \<open>The random handout simulation\<close>

text \<open>
  The notebook \<^verbatim>\<open>random_handout_problem.ipynb\<close> holds one function with algorithmic
  content:
  \<^verbatim>\<open>
  INITWEALTH = 50
  NUMPLAYERS = 100

  def simulate():
      prev_step = [INITWEALTH]*NUMPLAYERS
      while True:
          next_step = [max(0, player_wealth - 1) for player_wealth in prev_step]
          for player, wealth in enumerate(prev_step):
              if wealth:
                  next_step[random.randint(0, NUMPLAYERS - 1)] += 1
          yield next_step
          prev_step = next_step
  \<close>
  Python integers are unbounded, so wealth is an \<open>int\<close> and a distribution an
  \<open>int list\<close>. The two module constants are parameters \<open>N\<close> and \<open>W\<close> of the model;
  the values the notebook gives them are kept as \<open>NUMPLAYERS\<close> and \<open>INITWEALTH\<close>.
\<close>

subsection \<open>Exceptions and the library calls\<close>

text \<open>
  The exceptions the body of \<open>simulate\<close> could raise: \<open>random.randint\<close> on an empty
  range, and list indexing out of range.
\<close>

datatype error = ValueError | IndexError

text \<open>
  The random source is the generator of Python's \<open>random\<close> module, a module global.
  It is modelled by the sequence \<open>raw\<close> of the raw integers it is going to
  produce (fixed by its seed) and by the number \<open>pos\<close> of draws consumed so far, which
  is threaded through every call. \<open>random.randint(a, b)\<close> raises \<open>ValueError\<close> when
  \<open>b < a\<close> and otherwise returns an integer \<open>r\<close> with \<open>a \<le> r \<le> b\<close>: the raw value
  reduced into the range.
\<close>

definition randint :: "int \<Rightarrow> int \<Rightarrow> int \<Rightarrow> error + int" where
  "randint a b x = (if b < a then Inl ValueError else Inr (a + x mod (b - a + 1)))"

text \<open>
  \<open>xs[r] += 1\<close> on a Python list: an index below \<open>-len(xs)\<close> or from \<open>len(xs)\<close> on
  raises \<open>IndexError\<close>, a negative index counts from the end.
\<close>

definition list_incr :: "int list \<Rightarrow> int \<Rightarrow> error + int list" where
  "list_incr xs r =
     (let n = int (length xs) in
      if r < - n \<or> n \<le> r then Inl IndexError
      else (let j = nat (if r < 0 then r + n else r) in Inr (xs[j := xs ! j + 1])))"

subsection \<open>One tick\<close>

definition INITWEALTH :: int where
  "INITWEALTH = 50"

definition NUMPLAYERS :: int where
  "NUMPLAYERS = 100"

text \<open>
  The \<open>for\<close> loop over \<open>prev_step\<close>: the first list argument is what is left of
  \<open>prev_step\<close>, \<open>next_step\<close> is the list being mutated, \<open>pos\<close> the draws consumed.
  \<open>if wealth:\<close> tests for a non-zero integer.
\<close>

fun handout :: "(nat \<Rightarrow> int) \<Rightarrow> int \<Rightarrow> int list \<Rightarrow> int list \<Rightarrow> nat \<Rightarrow> error + (int list \<times> nat)" where
  "handout raw N [] next_step pos = Inr (next_step, pos)"
| "handout raw N (wealth # rest) next_step pos =
     (if wealth \<noteq> 0 then
        (case randint 0 (N - 1) (raw pos) of
           Inl e \<Rightarrow> Inl e
         | Inr r \<Rightarrow>
             (case list_incr next_step r of
                Inl e \<Rightarrow> Inl e
              | Inr next_step' \<Rightarrow> handout raw N rest next_step' (Suc pos)))
      else handout raw N rest next_step pos)"

text \<open>The body of the \<open>while\<close> loop up to the \<open>yield\<close>.\<close>

definition step :: "(nat \<Rightarrow> int) \<Rightarrow> int \<Rightarrow> int list \<Rightarrow> nat \<Rightarrow> error + (int list \<times> nat)" where
  "step raw N prev_step pos =
     handout raw N prev_step (map (\<lambda>player_wealth. max 0 (player_wealth - 1)) prev_step) pos"

subsection \<open>The generator\<close>

text \<open>\<open>[INITWEALTH]*NUMPLAYERS\<close>: a list repeated a negative number of times is empty.\<close>

definition initial :: "int \<Rightarrow> int \<Rightarrow> int list" where
  "initial N W = replicate (nat N) W"

text \<open>
  The generator is driven by its consumer: \<open>simulate_from raw N n prev_step pos\<close> is the
  list of the first \<open>n\<close> lists it yields when its local variable is \<open>prev_step\<close> and the
  random source stands at \<open>pos\<close>, with the position of the source afterwards. An exception
  in the body ends the generator and reaches the consumer. The list yielded is the
  object the generator keeps as \<open>prev_step\<close>; the notebook's consumer only reads it
  (\<open>sorted\<close> copies), and each tick builds a fresh \<open>next_step\<close>, so lists are passed
  by value here.
\<close>

fun simulate_from :: "(nat \<Rightarrow> int) \<Rightarrow> int \<Rightarrow> nat \<Rightarrow> int list \<Rightarrow> nat \<Rightarrow> error + (int list list \<times> nat)" where
  "simulate_from raw N 0 prev_step pos = Inr ([], pos)"
| "simulate_from raw N (Suc n) prev_step pos =
     (case step raw N prev_step pos of
        Inl e \<Rightarrow> Inl e
      | Inr (next_step, pos') \<Rightarrow>
          (case simulate_from raw N n next_step pos' of
             Inl e \<Rightarrow> Inl e
           | Inr (ys, pos'') \<Rightarrow> Inr (next_step # ys, pos'')))"

definition simulate :: "(nat \<Rightarrow> int) \<Rightarrow> int \<Rightarrow> int \<Rightarrow> nat \<Rightarrow> nat \<Rightarrow> error + (int list list \<times> nat)" where
  "simulate raw N W n pos = simulate_from raw N n (initial N W) pos"

text \<open>
  \<open>steps raw N k (d, pos)\<close>: the step function applied \<open>k\<close> times in a row, starting
  from distribution \<open>d\<close>.
\<close>

fun steps :: "(nat \<Rightarrow> int) \<Rightarrow> int \<Rightarrow> nat \<Rightarrow> int list \<times> nat \<Rightarrow> error + (int list \<times> nat)" where
  "steps raw N 0 s = Inr s"
| "steps raw N (Suc k) s =
     (case steps raw N k s of
        Inl e \<Rightarrow> Inl e
      | Inr (d, pos) \<Rightarrow> step raw N d pos)"

subsection \<open>The algorithm as the specification words it\<close>

text \<open>
  Written from the specification, for comparison with \<open>step\<close>: first
  \<open>next[i] = max(0, prev[i] - 1)\<close> for every index; then, for every index \<open>i\<close> in
  increasing order with \<open>prev[i] > 0\<close>, one index \<open>r\<close> in \<open>[0, N)\<close> is drawn, \<open>N\<close> the
  length of \<open>prev\<close>, and \<open>next[r]\<close> is incremented, whether or not \<open>r = i\<close>.
\<close>

fun spec_give :: "(nat \<Rightarrow> int) \<Rightarrow> int list \<Rightarrow> nat list \<Rightarrow> int list \<Rightarrow> nat \<Rightarrow> int list \<times> nat" where
  "spec_give raw prev [] nxt pos = (nxt, pos)"
| "spec_give raw prev (i # is) nxt pos =
     (if 0 < prev ! i then
        (let r = nat (raw pos mod int (length prev)) in
         spec_give raw prev is (nxt[r := nxt ! r + 1]) (Suc pos))
      else spec_give raw prev is nxt pos)"

definition spec_step :: "(nat \<Rightarrow> int) \<Rightarrow> int list \<Rightarrow> nat \<Rightarrow> int list \<times> nat" where
  "spec_step raw prev pos =
     spec_give raw prev [0..<length prev]
       (map (\<lambda>i. max 0 (prev ! i - 1)) [0..<length prev]) pos"

section \<open>Properties of one tick and of the generator\<close>

subsection \<open>Auxiliary facts\<close>

lemma list_incr_in_range:
  "0 \<le> r \<Longrightarrow> r < int (length xs) \<Longrightarrow> list_incr xs r = Inr (xs[nat r := xs ! nat r + 1])"
  by (simp add: list_incr_def Let_def)

lemma randint_players:
  "1 \<le> N \<Longrightarrow> randint 0 (N - 1) x = Inr (x mod N)"
  by (simp add: randint_def)

lemma sum_list_incr:
  "j < length xs \<Longrightarrow> sum_list (xs[j := xs ! j + 1]) = sum_list xs + (1::int)"
proof (induction xs arbitrary: j)
  case Nil
  then show ?case by simp
next
  case (Cons x xs)
  then show ?case by (cases j) simp_all
qed

lemma handout_total:
  "length nxt = nat N \<Longrightarrow> (ws \<noteq> [] \<longrightarrow> 1 \<le> N) \<Longrightarrow>
   \<exists>nxt'. handout raw N ws nxt pos = Inr (nxt', pos + length (filter (\<lambda>w. w \<noteq> 0) ws))
     \<and> length nxt' = length nxt
     \<and> sum_list nxt' = sum_list nxt + int (length (filter (\<lambda>w. w \<noteq> 0) ws))
     \<and> (\<forall>i<length nxt. nxt ! i \<le> nxt' ! i)"
proof (induction ws arbitrary: nxt pos)
  case Nil
  then show ?case by simp
next
  case (Cons w ws)
  then have N: "1 \<le> N" by simp
  show ?case
  proof (cases "w = 0")
    case True
    with Cons.IH [of nxt pos] Cons.prems N show ?thesis by simp
  next
    case False
    let ?r = "raw pos mod N"
    let ?nxt = "nxt[nat ?r := nxt ! nat ?r + 1]"
    have r: "0 \<le> ?r" "?r < int (length nxt)" "nat ?r < length nxt"
      using N Cons.prems(1) by simp_all
    have len: "length ?nxt = nat N" using Cons.prems(1) by simp
    from Cons.IH [OF len, of "Suc pos"] N obtain nxt' where
      h: "handout raw N ws ?nxt (Suc pos) = Inr (nxt', Suc pos + length (filter (\<lambda>w. w \<noteq> 0) ws))"
      and l: "length nxt' = length ?nxt"
      and s: "sum_list nxt' = sum_list ?nxt + int (length (filter (\<lambda>w. w \<noteq> 0) ws))"
      and m: "\<forall>i<length ?nxt. ?nxt ! i \<le> nxt' ! i"
      by blast
    have m': "\<forall>i<length nxt. nxt ! i \<le> nxt' ! i"
    proof (intro allI impI)
      fix i assume i: "i < length nxt"
      then have "nxt ! i \<le> ?nxt ! i" by (cases "i = nat ?r") simp_all
      also have "?nxt ! i \<le> nxt' ! i" using m i by simp
      finally show "nxt ! i \<le> nxt' ! i" .
    qed
    have "handout raw N (w # ws) nxt pos = handout raw N ws ?nxt (Suc pos)"
      using False N r by (simp add: randint_players list_incr_in_range)
    with h l s m' r(3) False show ?thesis
      by (simp add: sum_list_incr)
  qed
qed


lemma step_total:
  assumes "length prev = nat N"
  shows "\<exists>nxt. step raw N prev pos = Inr (nxt, pos + length (filter (\<lambda>w. w \<noteq> 0) prev))
     \<and> length nxt = length prev
     \<and> sum_list nxt = sum_list (map (\<lambda>w. max 0 (w - 1)) prev) + int (length (filter (\<lambda>w. w \<noteq> 0) prev))
     \<and> (\<forall>i<length prev. max 0 (prev ! i - 1) \<le> nxt ! i)"
proof -
  have a: "length (map (\<lambda>w. max 0 (w - 1)) prev) = nat N" using assms by simp
  have b: "prev \<noteq> [] \<longrightarrow> 1 \<le> N" using assms by (cases prev) auto
  from handout_total [OF a b, of raw pos] show ?thesis
    unfolding step_def by auto
qed

lemma decrement_sum:
  "\<forall>w\<in>set prev. 0 \<le> w \<Longrightarrow>
   sum_list (map (\<lambda>w. max 0 (w - 1)) prev) + int (length (filter (\<lambda>w. w \<noteq> 0) prev)) = sum_list prev"
  by (induction prev) auto

lemma positive_givers:
  "\<forall>w\<in>set prev. (0::int) \<le> w \<Longrightarrow> filter (\<lambda>w. w \<noteq> 0) prev = filter (\<lambda>w. 0 < w) prev"
  by (induction prev) auto

lemma step_conserves:
  assumes "length prev = nat N" and "\<forall>w\<in>set prev. 0 \<le> w"
  shows "\<exists>nxt p. step raw N prev pos = Inr (nxt, p) \<and> length nxt = nat N
     \<and> (\<forall>w\<in>set nxt. 0 \<le> w) \<and> sum_list nxt = sum_list prev"
proof -
  from step_total [OF assms(1), of raw pos] obtain nxt where
    s: "step raw N prev pos = Inr (nxt, pos + length (filter (\<lambda>w. w \<noteq> 0) prev))"
    and l: "length nxt = length prev"
    and t: "sum_list nxt = sum_list (map (\<lambda>w. max 0 (w - 1)) prev) + int (length (filter (\<lambda>w. w \<noteq> 0) prev))"
    and m: "\<forall>i<length prev. max 0 (prev ! i - 1) \<le> nxt ! i"
    by blast
  have "\<forall>w\<in>set nxt. 0 \<le> w"
  proof
    fix w assume "w \<in> set nxt"
    then obtain i where "i < length nxt" "nxt ! i = w" by (auto simp: in_set_conv_nth)
    with m l show "0 \<le> w" by fastforce
  qed
  with s l t assms decrement_sum [OF assms(2)] show ?thesis by simp
qed

lemma step_nonneg:
  assumes "length prev = nat N"
  shows "\<exists>nxt p. step raw N prev pos = Inr (nxt, p) \<and> length nxt = nat N \<and> (\<forall>i<length nxt. 0 \<le> nxt ! i)"
proof -
  from step_total [OF assms, of raw pos] obtain nxt where
    s: "step raw N prev pos = Inr (nxt, pos + length (filter (\<lambda>w. w \<noteq> 0) prev))"
    and l: "length nxt = length prev"
    and m: "\<forall>i<length prev. max 0 (prev ! i - 1) \<le> nxt ! i"
    by blast
  have "\<forall>i<length nxt. 0 \<le> nxt ! i" using m l by fastforce
  with s l assms show ?thesis by simp
qed

lemma simulate_from_total:
  "length prev = nat N \<Longrightarrow>
   \<exists>ys p. simulate_from raw N n prev pos = Inr (ys, p) \<and> length ys = n
     \<and> (\<forall>y\<in>set ys. length y = nat N \<and> (\<forall>i<length y. 0 \<le> y ! i))"
proof (induction n arbitrary: prev pos)
  case 0
  then show ?case by simp
next
  case (Suc n)
  from step_nonneg [OF Suc.prems, of raw pos] obtain nxt p where
    s: "step raw N prev pos = Inr (nxt, p)" and l: "length nxt = nat N"
    and m: "\<forall>i<length nxt. 0 \<le> nxt ! i" by blast
  from Suc.IH [OF l, of p] obtain ys q where
    r: "simulate_from raw N n nxt p = Inr (ys, q)" and "length ys = n"
    and "\<forall>y\<in>set ys. length y = nat N \<and> (\<forall>i<length y. 0 \<le> y ! i)" by blast
  with s l m show ?case by simp
qed

lemma simulate_from_conserves:
  "length prev = nat N \<Longrightarrow> \<forall>w\<in>set prev. 0 \<le> w \<Longrightarrow>
   simulate_from raw N n prev pos = Inr (ys, q) \<Longrightarrow> k < n \<Longrightarrow>
   sum_list (ys ! k) = sum_list ((prev # ys) ! k) \<and> sum_list (ys ! k) = sum_list prev"
proof (induction n arbitrary: prev pos ys k)
  case 0
  then show ?case by simp
next
  case (Suc n)
  from step_conserves [OF Suc.prems(1,2), of raw pos] obtain nxt p where
    s: "step raw N prev pos = Inr (nxt, p)" and l: "length nxt = nat N"
    and m: "\<forall>w\<in>set nxt. 0 \<le> w" and c: "sum_list nxt = sum_list prev" by blast
  from Suc.prems(3) s obtain zs where
    r: "simulate_from raw N n nxt p = Inr (zs, q)" and ys: "ys = nxt # zs"
    by (auto split: sum.splits)
  show ?case
  proof (cases k)
    case 0
    with ys c show ?thesis by simp
  next
    case (Suc j)
    with Suc.prems(4) have "j < n" by simp
    from Suc.IH [OF l m r this] ys c Suc show ?thesis by simp
  qed
qed

lemma steps_front:
  "steps raw N (Suc k) (d, pos) =
     (case step raw N d pos of Inl e \<Rightarrow> Inl e | Inr s \<Rightarrow> steps raw N k s)"
proof (induction k)
  case 0
  then show ?case by (simp split: sum.splits)
next
  case (Suc k)
  have "steps raw N (Suc (Suc k)) (d, pos) =
      (case steps raw N (Suc k) (d, pos) of Inl e \<Rightarrow> Inl e | Inr (d', p) \<Rightarrow> step raw N d' p)"
    by simp
  also have "\<dots> = (case step raw N d pos of Inl e \<Rightarrow> Inl e | Inr s \<Rightarrow> steps raw N (Suc k) s)"
    unfolding Suc.IH by (simp split: sum.splits)
  finally show ?case .
qed

lemma simulate_from_steps:
  "simulate_from raw N n prev pos = Inr (ys, q) \<Longrightarrow> k < n \<Longrightarrow>
   \<exists>p. steps raw N (Suc k) (prev, pos) = Inr (ys ! k, p)"
proof (induction n arbitrary: prev pos ys k)
  case 0
  then show ?case by simp
next
  case (Suc n)
  from Suc.prems(1) obtain nxt p zs where
    s: "step raw N prev pos = Inr (nxt, p)"
    and r: "simulate_from raw N n nxt p = Inr (zs, q)" and ys: "ys = nxt # zs"
    by (auto split: sum.splits)
  show ?case
  proof (cases k)
    case 0
    with s ys show ?thesis by simp
  next
    case (Suc j)
    with Suc.prems(2) have "j < n" by simp
    from Suc.IH [OF r this] obtain p' where "steps raw N (Suc j) (nxt, p) = Inr (zs ! j, p')" by blast
    then have "steps raw N (Suc (Suc j)) (prev, pos) = Inr (zs ! j, p')"
      using s by (subst steps_front) simp
    with Suc ys show ?thesis by simp
  qed
qed

lemma handout_spec_give:
  assumes "length prev = nat N" and "\<forall>w\<in>set prev. 0 \<le> w"
  shows "length nxt = length prev \<Longrightarrow> \<forall>i\<in>set js. i < length prev \<Longrightarrow>
    handout raw N (map (\<lambda>i. prev ! i) js) nxt pos = Inr (spec_give raw prev js nxt pos)"
proof (induction js arbitrary: nxt pos)
  case Nil
  then show ?case by simp
next
  case (Cons j js)
  then have j: "j < length prev" by simp
  with assms(1) have N: "1 \<le> N" "int (length prev) = N" by auto
  from j assms(2) have nn: "0 \<le> prev ! j" by simp
  show ?case
  proof (cases "prev ! j = 0")
    case True
    with Cons show ?thesis by simp
  next
    case False
    with nn have pos: "0 < prev ! j" by simp
    let ?r = "raw pos mod N"
    have r: "0 \<le> ?r" "?r < int (length nxt)"
      using N Cons.prems(1) by simp_all
    have len: "length (nxt[nat ?r := nxt ! nat ?r + 1]) = length prev"
      using Cons.prems(1) by simp
    from Cons.IH [OF len, of "Suc pos"] Cons.prems(2)
    have "handout raw N (map (\<lambda>i. prev ! i) js) (nxt[nat ?r := nxt ! nat ?r + 1]) (Suc pos)
        = Inr (spec_give raw prev js (nxt[nat ?r := nxt ! nat ?r + 1]) (Suc pos))"
      by simp
    with False pos N r show ?thesis
      by (simp add: randint_players list_incr_in_range Let_def)
  qed
qed

lemma handout_shift:
  "length nxt = nat N \<Longrightarrow> (ws \<noteq> [] \<longrightarrow> 1 \<le> N) \<Longrightarrow> \<forall>i. raw1 (p1 + i) = raw2 (p2 + i) \<Longrightarrow>
   \<exists>nxt' d. handout raw1 N ws nxt p1 = Inr (nxt', p1 + d)
     \<and> handout raw2 N ws nxt p2 = Inr (nxt', p2 + d) \<and> length nxt' = nat N"
proof (induction ws arbitrary: nxt p1 p2)
  case Nil
  then show ?case by simp
next
  case (Cons w ws)
  then have N: "1 \<le> N" by simp
  show ?case
  proof (cases "w = 0")
    case True
    with Cons.IH [OF Cons.prems(1) _ Cons.prems(3)] N show ?thesis by simp
  next
    case False
    from Cons.prems(3) have same: "raw1 p1 = raw2 p2" by (metis add.right_neutral)
    let ?r = "raw1 p1 mod N"
    let ?nxt = "nxt[nat ?r := nxt ! nat ?r + 1]"
    have r: "0 \<le> ?r" "?r < int (length nxt)"
      using N Cons.prems(1) by simp_all
    have len: "length ?nxt = nat N" using Cons.prems(1) by simp
    have sh: "\<forall>i. raw1 (Suc p1 + i) = raw2 (Suc p2 + i)"
    proof
      fix i
      from Cons.prems(3) have "raw1 (p1 + Suc i) = raw2 (p2 + Suc i)" by blast
      then show "raw1 (Suc p1 + i) = raw2 (Suc p2 + i)" by simp
    qed
    from Cons.IH [OF len _ sh] N obtain nxt' d where
      h1: "handout raw1 N ws ?nxt (Suc p1) = Inr (nxt', Suc p1 + d)"
      and h2: "handout raw2 N ws ?nxt (Suc p2) = Inr (nxt', Suc p2 + d)"
      and l: "length nxt' = nat N" by blast
    have "handout raw1 N (w # ws) nxt p1 = Inr (nxt', p1 + Suc d)"
      using False N r h1 by (simp add: randint_players list_incr_in_range)
    moreover have "handout raw2 N (w # ws) nxt p2 = Inr (nxt', p2 + Suc d)"
      using False N r h2 same [symmetric] by (simp add: randint_players list_incr_in_range)
    ultimately show ?thesis using l by blast
  qed
qed

lemma step_shift:
  assumes "length prev = nat N" and "\<forall>i. raw1 (p1 + i) = raw2 (p2 + i)"
  shows "\<exists>nxt d. step raw1 N prev p1 = Inr (nxt, p1 + d)
     \<and> step raw2 N prev p2 = Inr (nxt, p2 + d) \<and> length nxt = nat N"
proof -
  have a: "length (map (\<lambda>w. max 0 (w - 1)) prev) = nat N" using assms(1) by simp
  have b: "prev \<noteq> [] \<longrightarrow> 1 \<le> N" using assms(1) by (cases prev) auto
  from handout_shift [OF a b assms(2)] show ?thesis unfolding step_def .
qed

lemma simulate_from_shift:
  "length prev = nat N \<Longrightarrow> \<forall>i. raw1 (p1 + i) = raw2 (p2 + i) \<Longrightarrow>
   \<exists>ys d. simulate_from raw1 N n prev p1 = Inr (ys, p1 + d)
     \<and> simulate_from raw2 N n prev p2 = Inr (ys, p2 + d)"
proof (induction n arbitrary: prev p1 p2)
  case 0
  have "simulate_from raw1 N 0 prev p1 = Inr ([], p1 + 0)
      \<and> simulate_from raw2 N 0 prev p2 = Inr ([], p2 + 0)" by simp
  then show ?case by blast
next
  case (Suc n)
  from step_shift [OF Suc.prems] obtain nxt d where
    s1: "step raw1 N prev p1 = Inr (nxt, p1 + d)"
    and s2: "step raw2 N prev p2 = Inr (nxt, p2 + d)" and l: "length nxt = nat N" by blast
  have sh: "\<forall>i. raw1 (p1 + d + i) = raw2 (p2 + d + i)"
  proof
    fix i
    from Suc.prems(2) have "raw1 (p1 + (d + i)) = raw2 (p2 + (d + i))" by blast
    then show "raw1 (p1 + d + i) = raw2 (p2 + d + i)" by (simp add: add.assoc)
  qed
  from Suc.IH [OF l sh] obtain ys e where
    r1: "simulate_from raw1 N n nxt (p1 + d) = Inr (ys, p1 + d + e)"
    and r2: "simulate_from raw2 N n nxt (p2 + d) = Inr (ys, p2 + d + e)" by blast
  have "simulate_from raw1 N (Suc n) prev p1 = Inr (nxt # ys, p1 + (d + e))
      \<and> simulate_from raw2 N (Suc n) prev p2 = Inr (nxt # ys, p2 + (d + e))"
    using s1 s2 r1 r2 by (simp add: add.assoc)
  then show ?case by blast
qed

lemma single_step: "step raw 1 [5] pos = Inr ([5], Suc pos)"
  by (simp add: step_def randint_def list_incr_def)

lemma single_from: "simulate_from raw 1 n [5] pos = Inr (replicate n [5], pos + n)"
  by (induction n arbitrary: pos) (simp_all add: single_step)

subsection \<open>Runs on concrete inputs\<close>

text \<open>
  Two players with one unit each and a source that always draws index 0: both units go
  to player 0.
\<close>

lemma step_example: "step (\<lambda>_. 0) 2 [1, 1] 0 = Inr ([2, 0], 2)"
  by code_simp

lemma simulate_example: "simulate (\<lambda>_. 0) 2 1 2 0 = Inr ([[2, 0], [2, 0]], 3)"
  by code_simp

lemma initial_notebook: "initial NUMPLAYERS INITWEALTH = replicate 100 50"
  by (simp add: initial_def NUMPLAYERS_def INITWEALTH_def)

lemma steps_example:
  "steps (\<lambda>_. 0) 2 0 (initial 2 1, 0) = Inr ([1, 1], 0)
   \<and> steps (\<lambda>_. 0) 2 1 (initial 2 1, 0) = Inr ([2, 0], 2)
   \<and> steps (\<lambda>_. 0) 2 2 (initial 2 1, 0) = Inr ([2, 0], 3)"
  by code_simp

text \<open>Three players, the middle one with nothing; the source always draws index 1.\<close>

lemma step_example3: "step (\<lambda>_. 1) 3 [2, 0, 1] 4 = Inr ([1, 2, 0], 6)"
  by code_simp

text \<open>The same tick with a negative entry, which \<open>if wealth:\<close> takes for a giver.\<close>

lemma step_example4: "step (\<lambda>_. 1) 3 [2, - 4, 1] 0 = Inr ([1, 3, 0], 3)"
  by code_simp

text \<open>A source that draws 0, 1, 2, ... in turn, on the code and on the specification's wording.\<close>

lemma spec_step_example: "spec_step (\<lambda>i. int i) [2, 0, 1] 0 = ([2, 1, 0], 2)"
  by code_simp

lemma step_example5: "step (\<lambda>i. int i) 3 [2, 0, 1] 0 = Inr ([2, 1, 0], 2)"
  by code_simp

text \<open>
  Two sources that deliver the same draws from their starting positions 0 and 4:
  the generator re-seeded with the same seed.
\<close>

lemma reseeded_runs:
  "simulate (\<lambda>i. int i) 2 1 2 0 = Inr ([[1, 1], [1, 1]], 4)
   \<and> simulate (\<lambda>i. int i - 4) 2 1 2 4 = Inr ([[1, 1], [1, 1]], 8)"
  by code_simp

section \<open>The claims\<close>

subsection \<open>C1: conservation of total wealth\<close>

text \<open>
  C1. One tick leaves the total unchanged: on a distribution of non-negative wealths
  whose length is the number of players, \<open>step\<close> returns a distribution with the same
  sum. Hence along the simulation started from \<open>N\<close> copies of \<open>W \<ge> 0\<close>, every yielded
  distribution has the sum of the one before it (the initial distribution for the first),
  and so the sum of the initial distribution, for any number \<open>n\<close> of elements pulled.
\<close>

theorem conservation:
  "(length prev = nat N \<and> (\<forall>w\<in>set prev. 0 \<le> w) \<longrightarrow>
      (\<exists>nxt p. step raw N prev pos = Inr (nxt, p) \<and> sum_list nxt = sum_list prev))
   \<and> (0 \<le> W \<longrightarrow>
      (\<exists>ys p. simulate raw N W n pos = Inr (ys, p) \<and> length ys = n
         \<and> (\<forall>k<n. sum_list (ys ! k) = sum_list ((initial N W # ys) ! k)
                \<and> sum_list (ys ! k) = sum_list (initial N W))))"
proof (intro conjI impI)
  assume "length prev = nat N \<and> (\<forall>w\<in>set prev. 0 \<le> w)"
  then have "length prev = nat N" and "\<forall>w\<in>set prev. 0 \<le> w" by simp_all
  from step_conserves [OF this, of raw pos]
  show "\<exists>nxt p. step raw N prev pos = Inr (nxt, p) \<and> sum_list nxt = sum_list prev" by blast
next
  assume W: "0 \<le> W"
  have l: "length (initial N W) = nat N" by (simp add: initial_def)
  have m: "\<forall>w\<in>set (initial N W). 0 \<le> w" using W by (simp add: initial_def)
  from simulate_from_total [OF l, of raw n pos] obtain ys p where
    r: "simulate_from raw N n (initial N W) pos = Inr (ys, p)" and len: "length ys = n" by blast
  have "\<forall>k<n. sum_list (ys ! k) = sum_list ((initial N W # ys) ! k)
      \<and> sum_list (ys ! k) = sum_list (initial N W)"
    using simulate_from_conserves [OF l m r] by blast
  with r len show "\<exists>ys p. simulate raw N W n pos = Inr (ys, p) \<and> length ys = n
         \<and> (\<forall>k<n. sum_list (ys ! k) = sum_list ((initial N W # ys) ! k)
                \<and> sum_list (ys ! k) = sum_list (initial N W))"
    unfolding simulate_def by blast
qed

theorem conservation_witness:
  "length [1, 1::int] = nat 2 \<and> 0 \<le> (1::int)
   \<and> step (\<lambda>_. 0) 2 [1, 1] 0 = Inr ([2, 0], 2) \<and> sum_list [2, 0::int] = sum_list [1, 1::int]
   \<and> simulate (\<lambda>_. 0) 2 1 2 0 = Inr ([[2, 0], [2, 0]], 3)
   \<and> sum_list [2, 0] = sum_list (initial 2 1)"
proof -
  have "sum_list [2, 0] = sum_list (initial 2 1)" by code_simp
  then show ?thesis
    using conservation [of "[1, 1]" 2 "\<lambda>_. 0" 0 1 2]
    by (simp add: step_example simulate_example)
qed

subsection \<open>C2: wealth is never negative\<close>

text \<open>
  C2. \<open>step\<close> maps a distribution of non-negative integers (of the length the number
  of players) to a distribution of non-negative integers, at every index. Hence every
  reachable distribution is non-negative at every index: the initial one when \<open>W \<ge> 0\<close>,
  and every distribution the simulation yields.
\<close>

theorem non_negativity:
  "(length prev = nat N \<and> (\<forall>i<length prev. 0 \<le> prev ! i) \<longrightarrow>
      (\<exists>nxt p. step raw N prev pos = Inr (nxt, p) \<and> (\<forall>i<length nxt. 0 \<le> nxt ! i)))
   \<and> (0 \<le> W \<longrightarrow>
      (\<forall>i<length (initial N W). 0 \<le> initial N W ! i)
      \<and> (\<exists>ys p. simulate raw N W n pos = Inr (ys, p) \<and> length ys = n
           \<and> (\<forall>k<n. \<forall>i<length (ys ! k). 0 \<le> ys ! k ! i)))"
proof (intro conjI impI)
  assume "length prev = nat N \<and> (\<forall>i<length prev. 0 \<le> prev ! i)"
  then have "length prev = nat N" by simp
  from step_nonneg [OF this, of raw pos]
  show "\<exists>nxt p. step raw N prev pos = Inr (nxt, p) \<and> (\<forall>i<length nxt. 0 \<le> nxt ! i)" by blast
next
  assume "0 \<le> W"
  then show "\<forall>i<length (initial N W). 0 \<le> initial N W ! i" by (simp add: initial_def)
next
  have l: "length (initial N W) = nat N" by (simp add: initial_def)
  from simulate_from_total [OF l, of raw n pos] obtain ys p where
    r: "simulate_from raw N n (initial N W) pos = Inr (ys, p)" and len: "length ys = n"
    and nn: "\<forall>y\<in>set ys. length y = nat N \<and> (\<forall>i<length y. 0 \<le> y ! i)" by blast
  have "\<forall>k<n. \<forall>i<length (ys ! k). 0 \<le> ys ! k ! i" using nn len by simp
  with r len show "\<exists>ys p. simulate raw N W n pos = Inr (ys, p) \<and> length ys = n
           \<and> (\<forall>k<n. \<forall>i<length (ys ! k). 0 \<le> ys ! k ! i)"
    unfolding simulate_def by blast
qed

theorem non_negativity_witness:
  "length [1, 1::int] = nat 2 \<and> 0 \<le> [1, 1::int] ! 0 \<and> 0 \<le> [1, 1::int] ! 1 \<and> 0 \<le> (1::int)
   \<and> step (\<lambda>_. 0) 2 [1, 1] 0 = Inr ([2, 0], 2)
   \<and> simulate (\<lambda>_. 0) 2 1 2 0 = Inr ([[2, 0], [2, 0]], 3)
   \<and> 0 \<le> [2, 0::int] ! 0 \<and> 0 \<le> [2, 0::int] ! 1"
  using non_negativity [of "[1, 1]" 2 "\<lambda>_. 0" 0 1 2]
  by (simp add: step_example simulate_example)

subsection \<open>C3: the step is the specified algorithm\<close>

text \<open>
  C3. On a distribution (non-negative wealths, one per player), \<open>step\<close> never raises
  and returns exactly what the algorithm of the specification, \<open>spec_step\<close>, computes:
  the same next distribution and the same number of draws taken from the source, the
  draws being made for the indices with positive previous wealth in increasing order,
  each an index in \<open>[0, N)\<close>, with no special case when a player draws itself.
\<close>

theorem step_refines_spec:
  assumes "length prev = nat N" and "\<forall>i<length prev. 0 \<le> prev ! i"
  shows "step raw N prev pos = Inr (spec_step raw prev pos)"
proof -
  have nn: "\<forall>w\<in>set prev. 0 \<le> w" using assms(2) by (auto simp: in_set_conv_nth)
  have a: "map (\<lambda>i. prev ! i) [0..<length prev] = prev" by (rule map_nth)
  have b: "map (\<lambda>w. max 0 (w - 1)) prev = map (\<lambda>i. max 0 (prev ! i - 1)) [0..<length prev]"
    by (rule nth_equalityI) simp_all
  have "handout raw N (map (\<lambda>i. prev ! i) [0..<length prev])
           (map (\<lambda>i. max 0 (prev ! i - 1)) [0..<length prev]) pos
        = Inr (spec_give raw prev [0..<length prev]
           (map (\<lambda>i. max 0 (prev ! i - 1)) [0..<length prev]) pos)"
    by (rule handout_spec_give [OF assms(1) nn]) simp_all
  then show ?thesis
    unfolding step_def spec_step_def b by (simp only: a)
qed

theorem step_refines_spec_witness:
  "length [2, 0, 1::int] = nat 3
   \<and> 0 \<le> [2, 0, 1::int] ! 0 \<and> 0 \<le> [2, 0, 1::int] ! 1 \<and> 0 \<le> [2, 0, 1::int] ! 2
   \<and> step (\<lambda>i. int i) 3 [2, 0, 1] 0 = Inr (spec_step (\<lambda>i. int i) [2, 0, 1] 0)
   \<and> spec_step (\<lambda>i. int i) [2, 0, 1] 0 = ([2, 1, 0], 2)"
proof -
  have a: "length [2, 0, 1::int] = nat 3" by simp
  have b: "\<forall>i<length [2, 0, 1::int]. 0 \<le> [2, 0, 1::int] ! i"
    by (simp add: less_Suc_eq numeral_3_eq_3)
  from step_refines_spec [OF a b, of "\<lambda>i. int i" 0] show ?thesis
    by (simp add: spec_step_example)
qed

subsection \<open>C4: the initial distribution\<close>

text \<open>
  C4. For a number of players \<open>N \<ge> 0\<close> (so in particular \<open>N \<ge> 1\<close>), the initial
  distribution has length \<open>N\<close>, every element equal to \<open>W\<close>, and sum \<open>N * W\<close>. With the
  notebook's constants it is 100 copies of 50.
\<close>

theorem initialization:
  "0 \<le> N \<Longrightarrow>
     int (length (initial N W)) = N \<and> (\<forall>i<length (initial N W). initial N W ! i = W)
     \<and> sum_list (initial N W) = N * W"
  by (simp add: initial_def sum_list_replicate)

theorem initialization_witness:
  "(0::int) \<le> NUMPLAYERS
   \<and> initial NUMPLAYERS INITWEALTH = replicate 100 50
   \<and> int (length (initial NUMPLAYERS INITWEALTH)) = 100
   \<and> sum_list (initial NUMPLAYERS INITWEALTH) = 5000"
  using initialization [of NUMPLAYERS INITWEALTH]
  by (simp add: initial_notebook) (simp add: NUMPLAYERS_def INITWEALTH_def)

subsection \<open>C5: the elements of the stream\<close>

text \<open>
  C5. The generator never ends: for every \<open>n\<close> the first \<open>n\<close> elements exist. Its
  \<open>k\<close>-th element (counting from 1) is the result of \<open>k\<close> applications of \<open>step\<close> to the
  initial distribution; so the first element is the result of one step, and the initial
  distribution (zero steps) is not yielded before it.
\<close>

theorem stream_elements:
  "\<exists>ys p. simulate raw N W n pos = Inr (ys, p) \<and> length ys = n
     \<and> (\<forall>k<n. \<exists>p'. steps raw N (Suc k) (initial N W, pos) = Inr (ys ! k, p'))"
proof -
  have l: "length (initial N W) = nat N" by (simp add: initial_def)
  from simulate_from_total [OF l, of raw n pos] obtain ys p where
    r: "simulate_from raw N n (initial N W) pos = Inr (ys, p)" and len: "length ys = n" by blast
  have "\<forall>k<n. \<exists>p'. steps raw N (Suc k) (initial N W, pos) = Inr (ys ! k, p')"
    using simulate_from_steps [OF r] by blast
  with r len show ?thesis unfolding simulate_def by blast
qed

theorem stream_elements_witness:
  "simulate (\<lambda>_. 0) 2 1 2 0 = Inr ([[2, 0], [2, 0]], 3)
   \<and> steps (\<lambda>_. 0) 2 0 (initial 2 1, 0) = Inr ([1, 1], 0)
   \<and> steps (\<lambda>_. 0) 2 1 (initial 2 1, 0) = Inr ([[2, 0], [2, 0]] ! 0, 2)
   \<and> steps (\<lambda>_. 0) 2 2 (initial 2 1, 0) = Inr ([[2, 0], [2, 0]] ! 1, 3)
   \<and> [[2, 0], [2, 0]] ! 0 \<noteq> [1, 1::int]"
  using stream_elements [of "\<lambda>_. 0" 2 1 2 0] simulate_example steps_example
  by (simp del: steps.simps)

subsection \<open>C6: errors\<close>

text \<open>
  C6 as stated fails: the code has no check of the number of players. With \<open>N = 0\<close> or
  \<open>N = - 1\<close> the initial distribution is the empty list, nothing is raised, and the
  generator yields the empty list at every tick.
\<close>

theorem no_configuration_error_counterexample:
  "initial 0 5 = [] \<and> simulate (\<lambda>_. 0) 0 5 2 0 = Inr ([[], []], 0)
   \<and> initial (- 1) 5 = [] \<and> simulate (\<lambda>_. 0) (- 1) 5 2 0 = Inr ([[], []], 0)"
  by code_simp

text \<open>
  C6, amended. Initialization never raises: for every \<open>N\<close> and \<open>W\<close> it gives a list of
  length \<open>nat N\<close>, the empty list when \<open>N < 1\<close>. No operation fails: for every \<open>N\<close>, \<open>W\<close>,
  random source and \<open>n\<close>, the first \<open>n\<close> advances all succeed.
\<close>

theorem never_fails:
  "length (initial N W) = nat N
   \<and> (\<exists>ys p. simulate raw N W n pos = Inr (ys, p) \<and> length ys = n)"
proof -
  have l: "length (initial N W) = nat N" by (simp add: initial_def)
  from simulate_from_total [OF l, of raw n pos] obtain ys p where
    "simulate_from raw N n (initial N W) pos = Inr (ys, p)" and "length ys = n" by blast
  with l show ?thesis unfolding simulate_def by blast
qed

subsection \<open>C7: determinism\<close>

text \<open>
  C7 as stated fails: \<open>simulate\<close> takes no random source, it draws from the one
  generator of the \<open>random\<close> module. Two instances created identically (two players, one
  unit each) over that source, seeded so that it draws 0, 0, 1, 1: the first instance,
  advanced once, takes the draws at positions 0 and 1 and yields \<open>[2, 0]\<close>; the second
  then finds the source at position 2 and yields \<open>[0, 2]\<close>.
\<close>

theorem shared_source_counterexample:
  "simulate (\<lambda>i. if i < 2 then 0 else 1) 2 1 1 0 = Inr ([[2, 0]], 2)
   \<and> simulate (\<lambda>i. if i < 2 then 0 else 1) 2 1 1 2 = Inr ([[0, 2]], 4)
   \<and> [[2, 0]] \<noteq> [[0, 2::int]]"
  by code_simp

text \<open>
  C7, amended. The result is a function of the previous distribution and of the state
  of the source: two runs with the same \<open>N\<close> and \<open>W\<close> whose sources deliver the same draws
  from their respective positions on (the generator re-seeded with the same seed) yield
  the same sequence of distributions, element for element, for any number \<open>n\<close> of
  elements, and consume the same number of draws.
\<close>

theorem same_draws_same_sequence:
  assumes "\<forall>i. raw1 (p1 + i) = raw2 (p2 + i)"
  shows "\<exists>ys d. simulate raw1 N W n p1 = Inr (ys, p1 + d)
     \<and> simulate raw2 N W n p2 = Inr (ys, p2 + d)"
proof -
  have l: "length (initial N W) = nat N" by (simp add: initial_def)
  from simulate_from_shift [OF l assms] show ?thesis unfolding simulate_def .
qed

theorem same_draws_same_sequence_witness:
  "(\<forall>i. int (0 + i) = int (4 + i) - 4)
   \<and> simulate (\<lambda>i. int i) 2 1 2 0 = Inr ([[1, 1], [1, 1]], 4)
   \<and> simulate (\<lambda>i. int i - 4) 2 1 2 4 = Inr ([[1, 1], [1, 1]], 8)"
proof -
  have h: "\<forall>i. int (0 + i) = int (4 + i) - 4" by simp
  from same_draws_same_sequence [of "\<lambda>i. int i" 0 "\<lambda>i. int i - 4" 4 2 1 2, OF h] h
  show ?thesis by (simp add: reseeded_runs)
qed

subsection \<open>C8: draws consumed by one tick\<close>

text \<open>
  C8. One tick on a distribution (non-negative wealths, one per player) takes exactly
  one draw per player whose previous wealth is positive and none for the others: the
  source advances by the number of positive entries.
\<close>

theorem randomness_consumption:
  assumes "length prev = nat N" and "\<forall>i<length prev. 0 \<le> prev ! i"
  shows "\<exists>nxt. step raw N prev pos = Inr (nxt, pos + length (filter (\<lambda>w. 0 < w) prev))"
proof -
  have nn: "\<forall>w\<in>set prev. 0 \<le> w" using assms(2) by (auto simp: in_set_conv_nth)
  from step_total [OF assms(1), of raw pos] positive_givers [OF nn]
  show ?thesis by auto
qed

theorem randomness_consumption_witness:
  "length [2, 0, 1::int] = nat 3
   \<and> 0 \<le> [2, 0, 1::int] ! 0 \<and> 0 \<le> [2, 0, 1::int] ! 1 \<and> 0 \<le> [2, 0, 1::int] ! 2
   \<and> step (\<lambda>_. 1) 3 [2, 0, 1] 4 = Inr ([1, 2, 0], 4 + length (filter (\<lambda>w. 0 < w) [2, 0, 1::int]))"
proof -
  have a: "length [2, 0, 1::int] = nat 3" by simp
  have b: "\<forall>i<length [2, 0, 1::int]. 0 \<le> [2, 0, 1::int] ! i"
    by (simp add: less_Suc_eq numeral_3_eq_3)
  from randomness_consumption [OF a b, of "\<lambda>_. 1" 4] show ?thesis
    by (simp add: step_example3)
qed

subsection \<open>C9: one player\<close>

text \<open>
  C9. With \<open>N = 1\<close> and \<open>W = 5\<close>, whatever the source draws, every element of the
  sequence is \<open>[5]\<close>, and each tick takes one draw.
\<close>

theorem single_agent_steady: "simulate raw 1 5 n pos = Inr (replicate n [5], pos + n)"
  by (simp add: simulate_def initial_def single_from)

subsection \<open>C10: a player loses at most one unit per tick\<close>

text \<open>
  C10. For every list of wealths \<open>prev\<close> (one per player, of either sign), every source
  and every index \<open>i\<close>, the step succeeds and \<open>next[i] \<ge> prev[i] - 1\<close>.
\<close>

theorem bounded_loss:
  assumes "length prev = nat N"
  shows "\<exists>nxt p. step raw N prev pos = Inr (nxt, p) \<and> length nxt = length prev
     \<and> (\<forall>i<length prev. prev ! i - 1 \<le> nxt ! i)"
proof -
  from step_total [OF assms, of raw pos] obtain nxt where
    s: "step raw N prev pos = Inr (nxt, pos + length (filter (\<lambda>w. w \<noteq> 0) prev))"
    and l: "length nxt = length prev"
    and m: "\<forall>i<length prev. max 0 (prev ! i - 1) \<le> nxt ! i"
    by blast
  have "\<forall>i<length prev. prev ! i - 1 \<le> nxt ! i" using m by fastforce
  with s l show ?thesis by blast
qed

theorem bounded_loss_witness:
  "length [2, - 4, 1::int] = nat 3
   \<and> step (\<lambda>_. 1) 3 [2, - 4, 1] 0 = Inr ([1, 3, 0], 3)
   \<and> [2, - 4, 1::int] ! 0 - 1 \<le> [1, 3, 0] ! 0
   \<and> [2, - 4, 1::int] ! 1 - 1 \<le> [1, 3, 0] ! 1
   \<and> [2, - 4, 1::int] ! 2 - 1 \<le> [1, 3, 0] ! 2"
  using bounded_loss [of "[2, - 4, 1]" 3 "\<lambda>_. 1" 0]
  by (simp add: step_example4)

end
